theory Spec2Isabelle
  imports Main "HOL-Library.Word"
begin

unbundle bit_operations_syntax

text \<open>
  A shallow embedding of \<^verbatim>\<open>firmware/dmainstrs.c\<close>: the functions that fill lookup
  tables for nybble arithmetic, and \<^verbatim>\<open>build_add8_using_nybbles\<close>, which lays out a
  chain of DMA descriptors for an 8-bit addition.  The definitions follow the source
  statement by statement; the theorems after them say what the functions leave in
  memory and which of them return.
\<close>

section \<open>Memory\<close>

text \<open>
  The target is a 32-bit little-endian microcontroller (SAMD21, Cortex-M0+).  Every
  function of \<^verbatim>\<open>dmainstrs.c\<close> works through raw pointers, so the state is the
  byte-addressed memory itself: an address is a 32-bit word, pointer arithmetic is
  addition modulo \<open>2 ^ 32\<close>, and a store changes one byte of the map.
\<close>

type_synonym addr = "32 word"
type_synonym mem = "addr \<Rightarrow> 8 word"

definition zero_mem :: mem where
  "zero_mem = (\<lambda>a. 0)"

definition write16 :: "mem \<Rightarrow> addr \<Rightarrow> 16 word \<Rightarrow> mem" where
  "write16 m a v = (m(a := ucast v))(a + 1 := ucast (drop_bit 8 v))"

definition write32 :: "mem \<Rightarrow> addr \<Rightarrow> 32 word \<Rightarrow> mem" where
  "write32 m a v =
     (((m(a := ucast v))
          (a + 1 := ucast (drop_bit 8 v)))
          (a + 2 := ucast (drop_bit 16 v)))
          (a + 3 := ucast (drop_bit 24 v))"

definition read32 :: "mem \<Rightarrow> addr \<Rightarrow> 32 word" where
  "read32 m a =
     ucast (m a) OR push_bit 8 (ucast (m (a + 1)))
       OR push_bit 16 (ucast (m (a + 2))) OR push_bit 24 (ucast (m (a + 3)))"

text \<open>
  A \<^verbatim>\<open>void\<close> function either returns, leaving a memory behind (\<open>Some m\<close>), or never
  returns (\<open>None\<close>).  The two observers below read a byte or a 32-bit field of the
  memory a call leaves behind.
\<close>

definition byte_after :: "mem option \<Rightarrow> addr \<Rightarrow> 8 word option" where
  "byte_after r a = (case r of None \<Rightarrow> None | Some m \<Rightarrow> Some (m a))"

definition field32_after :: "mem option \<Rightarrow> addr \<Rightarrow> 32 word option" where
  "field32_after r a = (case r of None \<Rightarrow> None | Some m \<Rightarrow> Some (read32 m a))"

section \<open>LUT building functions\<close>

subsection \<open>\<^verbatim>\<open>setup_low_nybble_low_nybble_to_byte\<close>: the 16x256 table\<close>

text \<open>
  Three nested \<^verbatim>\<open>for\<close> loops over \<^verbatim>\<open>uint32_t\<close> counters, innermost first.  The body
  computes \<^verbatim>\<open>idx = (dup_count * 16) + (low_nybble * 1) + (high_nybble * 256)\<close> and stores
  \<^verbatim>\<open>(uint8_t)((high_nybble << 4) | (low_nybble))\<close> at \<^verbatim>\<open>base[idx]\<close>.
\<close>

function dup_count_loop :: "addr \<Rightarrow> 32 word \<Rightarrow> 32 word \<Rightarrow> 32 word \<Rightarrow> mem \<Rightarrow> mem" where
  "dup_count_loop base high_nybble low_nybble dup_count m =
     (if dup_count < 16 then
        let idx = (dup_count * 16) + (low_nybble * 1) + (high_nybble * 256);
            target_value = (ucast (push_bit 4 high_nybble OR low_nybble) :: 8 word)
        in dup_count_loop base high_nybble low_nybble (dup_count + 1)
             (m(base + idx := target_value))
      else m)"
  by pat_completeness auto
termination
proof (relation "measure (\<lambda>(base, high_nybble, low_nybble, dup_count, m). 16 - unat dup_count)")
  show "wf (measure (\<lambda>(base, high_nybble, low_nybble, dup_count, m). 16 - unat dup_count))"
    by simp
next
  fix base high_nybble low_nybble :: "32 word" and dup_count :: "32 word" and m :: mem
    and x xa
  assume "dup_count < 16"
  then have "unat dup_count < 16"
    by (simp add: word_less_nat_alt)
  then have "unat (dup_count + 1) = unat dup_count + 1"
    by (simp add: unat_word_ariths)
  with \<open>unat dup_count < 16\<close>
  show "((base, high_nybble, low_nybble, dup_count + 1, m(base + x := xa)),
         (base, high_nybble, low_nybble, dup_count, m))
        \<in> measure (\<lambda>(base, high_nybble, low_nybble, dup_count, m). 16 - unat dup_count)"
    by simp
qed

declare dup_count_loop.simps [simp del]

function low_nybble_loop :: "addr \<Rightarrow> 32 word \<Rightarrow> 32 word \<Rightarrow> mem \<Rightarrow> mem" where
  "low_nybble_loop base high_nybble low_nybble m =
     (if low_nybble < 16 then
        low_nybble_loop base high_nybble (low_nybble + 1)
          (dup_count_loop base high_nybble low_nybble 0 m)
      else m)"
  by pat_completeness auto
termination
proof (relation "measure (\<lambda>(base, high_nybble, low_nybble, m). 16 - unat low_nybble)")
  show "wf (measure (\<lambda>(base, high_nybble, low_nybble, m). 16 - unat low_nybble))"
    by simp
next
  fix base high_nybble :: "32 word" and low_nybble :: "32 word" and m :: mem
  assume "low_nybble < 16"
  then have "unat low_nybble < 16"
    by (simp add: word_less_nat_alt)
  then have "unat (low_nybble + 1) = unat low_nybble + 1"
    by (simp add: unat_word_ariths)
  with \<open>unat low_nybble < 16\<close>
  show "((base, high_nybble, low_nybble + 1, dup_count_loop base high_nybble low_nybble 0 m),
         (base, high_nybble, low_nybble, m))
        \<in> measure (\<lambda>(base, high_nybble, low_nybble, m). 16 - unat low_nybble)"
    by simp
qed

declare low_nybble_loop.simps [simp del]

function high_nybble_loop :: "addr \<Rightarrow> 32 word \<Rightarrow> mem \<Rightarrow> mem" where
  "high_nybble_loop base high_nybble m =
     (if high_nybble < 16 then
        high_nybble_loop base (high_nybble + 1) (low_nybble_loop base high_nybble 0 m)
      else m)"
  by pat_completeness auto
termination
proof (relation "measure (\<lambda>(base, high_nybble, m). 16 - unat high_nybble)")
  show "wf (measure (\<lambda>(base, high_nybble, m). 16 - unat high_nybble))"
    by simp
next
  fix base :: "32 word" and high_nybble :: "32 word" and m :: mem
  assume "high_nybble < 16"
  then have "unat high_nybble < 16"
    by (simp add: word_less_nat_alt)
  then have "unat (high_nybble + 1) = unat high_nybble + 1"
    by (simp add: unat_word_ariths)
  with \<open>unat high_nybble < 16\<close>
  show "((base, high_nybble + 1, low_nybble_loop base high_nybble 0 m),
         (base, high_nybble, m))
        \<in> measure (\<lambda>(base, high_nybble, m). 16 - unat high_nybble)"
    by simp
qed

declare high_nybble_loop.simps [simp del]

definition setup_low_nybble_low_nybble_to_byte :: "mem \<Rightarrow> addr \<Rightarrow> mem option" where
  "setup_low_nybble_low_nybble_to_byte m base = Some (high_nybble_loop base 0 m)"

text \<open>
  The value the finished 16x256 table holds at byte offset \<open>off\<close>: the high selector
  \<open>off div 256\<close> in the upper nybble and the low nybble of \<open>off\<close> below it.  The loops
  above never mention it; it names their combined effect.
\<close>

definition combine_entry :: "32 word \<Rightarrow> 8 word" where
  "combine_entry off = ucast (push_bit 4 (off div 256) OR (off mod 16))"

subsection \<open>The 1x256 nybble-extraction tables\<close>

text \<open>
  Each of the remaining builders is one loop
  \<^verbatim>\<open>for (uint8_t count = 0; count < 256; count++) { base[count] = ...; }\<close>.
  The counter is a \<^verbatim>\<open>uint8_t\<close>: \<^verbatim>\<open>count++\<close> wraps from 255 to 0 (addition on
  \<open>8 word\<close>), and in \<^verbatim>\<open>count < 256\<close> it is promoted to \<^verbatim>\<open>int\<close> before the
  comparison.  The promoted value is between 0 and 255, so it is modelled as the
  zero-extension \<open>ucast count :: 32 word\<close>; the right-hand sides are computed on the
  promoted value and truncated to a byte by the store.  Whether such a loop is ever left
  is not known from its shape, so it is a partial function: \<open>None\<close> is "never returns".
  The loop body is a definition of its own, so that the memory can also be looked at
  while the loop runs.
\<close>

text \<open>\<^verbatim>\<open>base[count] = (count << 0) & 0x0f;\<close>\<close>

definition low_nybble_to_low_nybble_body :: "addr \<Rightarrow> 8 word \<Rightarrow> mem \<Rightarrow> mem" where
  "low_nybble_to_low_nybble_body base count m =
     m(base + ucast count :=
         ucast (push_bit 0 (ucast count :: 32 word) AND 0x0f))"

partial_function (option)
  low_nybble_to_low_nybble_loop :: "addr \<Rightarrow> 8 word \<Rightarrow> mem \<Rightarrow> mem option" where
  "low_nybble_to_low_nybble_loop base count m =
     (if (ucast count :: 32 word) < 256 then
        low_nybble_to_low_nybble_loop base (count + 1) (low_nybble_to_low_nybble_body base count m)
      else Some m)"

definition setup_low_nybble_to_low_nybble :: "mem \<Rightarrow> addr \<Rightarrow> mem option" where
  "setup_low_nybble_to_low_nybble m base = low_nybble_to_low_nybble_loop base 0 m"

text \<open>\<^verbatim>\<open>base[count] = (count << 4) & 0xf0;\<close>\<close>

definition low_nybble_to_high_nybble_body :: "addr \<Rightarrow> 8 word \<Rightarrow> mem \<Rightarrow> mem" where
  "low_nybble_to_high_nybble_body base count m =
     m(base + ucast count :=
         ucast (push_bit 4 (ucast count :: 32 word) AND 0xf0))"

partial_function (option)
  low_nybble_to_high_nybble_loop :: "addr \<Rightarrow> 8 word \<Rightarrow> mem \<Rightarrow> mem option" where
  "low_nybble_to_high_nybble_loop base count m =
     (if (ucast count :: 32 word) < 256 then
        low_nybble_to_high_nybble_loop base (count + 1) (low_nybble_to_high_nybble_body base count m)
      else Some m)"

definition setup_low_nybble_to_high_nybble :: "mem \<Rightarrow> addr \<Rightarrow> mem option" where
  "setup_low_nybble_to_high_nybble m base = low_nybble_to_high_nybble_loop base 0 m"

text \<open>\<^verbatim>\<open>base[count] = (count << 0) & 0xf0;\<close>\<close>

definition high_nybble_to_high_nybble_body :: "addr \<Rightarrow> 8 word \<Rightarrow> mem \<Rightarrow> mem" where
  "high_nybble_to_high_nybble_body base count m =
     m(base + ucast count :=
         ucast (push_bit 0 (ucast count :: 32 word) AND 0xf0))"

partial_function (option)
  high_nybble_to_high_nybble_loop :: "addr \<Rightarrow> 8 word \<Rightarrow> mem \<Rightarrow> mem option" where
  "high_nybble_to_high_nybble_loop base count m =
     (if (ucast count :: 32 word) < 256 then
        high_nybble_to_high_nybble_loop base (count + 1) (high_nybble_to_high_nybble_body base count m)
      else Some m)"

definition setup_high_nybble_to_high_nybble :: "mem \<Rightarrow> addr \<Rightarrow> mem option" where
  "setup_high_nybble_to_high_nybble m base = high_nybble_to_high_nybble_loop base 0 m"

text \<open>\<^verbatim>\<open>base[count] = (count >> 4) & 0x0f;\<close>\<close>

definition high_nybble_to_low_nybble_body :: "addr \<Rightarrow> 8 word \<Rightarrow> mem \<Rightarrow> mem" where
  "high_nybble_to_low_nybble_body base count m =
     m(base + ucast count :=
         ucast (drop_bit 4 (ucast count :: 32 word) AND 0x0f))"

partial_function (option)
  high_nybble_to_low_nybble_loop :: "addr \<Rightarrow> 8 word \<Rightarrow> mem \<Rightarrow> mem option" where
  "high_nybble_to_low_nybble_loop base count m =
     (if (ucast count :: 32 word) < 256 then
        high_nybble_to_low_nybble_loop base (count + 1) (high_nybble_to_low_nybble_body base count m)
      else Some m)"

definition setup_high_nybble_to_low_nybble :: "mem \<Rightarrow> addr \<Rightarrow> mem option" where
  "setup_high_nybble_to_low_nybble m base = high_nybble_to_low_nybble_loop base 0 m"

subsection \<open>The 16x16 nybble-addition tables\<close>

text \<open>
  The source defines four builders under two names: \<^verbatim>\<open>setup_nybble_add_no_carryin\<close>
  and \<^verbatim>\<open>setup_nybble_add_with_carryin\<close> each appear twice, first with the sum as
  body and then with the carry-out as body (the file's header comment calls the latter
  two tables \<^verbatim>\<open>nybble_carryout_no_carryin\<close>).  The second definition of each name
  carries the suffix \<open>_2\<close> here.
\<close>

text \<open>\<^verbatim>\<open>base[count] = (((count >> 4) & 0x0f) + (count & 0x0f)) & 0x0f;\<close>\<close>

definition nybble_add_no_carryin_body :: "addr \<Rightarrow> 8 word \<Rightarrow> mem \<Rightarrow> mem" where
  "nybble_add_no_carryin_body base count m =
     m(base + ucast count :=
         ucast (((drop_bit 4 (ucast count :: 32 word) AND 0x0f)
                      + ((ucast count :: 32 word) AND 0x0f)) AND 0x0f))"

partial_function (option)
  nybble_add_no_carryin_loop :: "addr \<Rightarrow> 8 word \<Rightarrow> mem \<Rightarrow> mem option" where
  "nybble_add_no_carryin_loop base count m =
     (if (ucast count :: 32 word) < 256 then
        nybble_add_no_carryin_loop base (count + 1) (nybble_add_no_carryin_body base count m)
      else Some m)"

definition setup_nybble_add_no_carryin :: "mem \<Rightarrow> addr \<Rightarrow> mem option" where
  "setup_nybble_add_no_carryin m base = nybble_add_no_carryin_loop base 0 m"

text \<open>\<^verbatim>\<open>base[count] = (((count >> 4) & 0x0f) + (count & 0x0f) + 1) & 0x0f;\<close>\<close>

definition nybble_add_with_carryin_body :: "addr \<Rightarrow> 8 word \<Rightarrow> mem \<Rightarrow> mem" where
  "nybble_add_with_carryin_body base count m =
     m(base + ucast count :=
         ucast (((drop_bit 4 (ucast count :: 32 word) AND 0x0f)
                      + ((ucast count :: 32 word) AND 0x0f) + 1) AND 0x0f))"

partial_function (option)
  nybble_add_with_carryin_loop :: "addr \<Rightarrow> 8 word \<Rightarrow> mem \<Rightarrow> mem option" where
  "nybble_add_with_carryin_loop base count m =
     (if (ucast count :: 32 word) < 256 then
        nybble_add_with_carryin_loop base (count + 1) (nybble_add_with_carryin_body base count m)
      else Some m)"

definition setup_nybble_add_with_carryin :: "mem \<Rightarrow> addr \<Rightarrow> mem option" where
  "setup_nybble_add_with_carryin m base = nybble_add_with_carryin_loop base 0 m"

text \<open>\<^verbatim>\<open>base[count] = ((((count >> 4) & 0x0f) + (count & 0x0f)) & 0x10) >> 4;\<close>\<close>

definition nybble_add_no_carryin_2_body :: "addr \<Rightarrow> 8 word \<Rightarrow> mem \<Rightarrow> mem" where
  "nybble_add_no_carryin_2_body base count m =
     m(base + ucast count :=
         ucast (drop_bit 4
              (((drop_bit 4 (ucast count :: 32 word) AND 0x0f)
                  + ((ucast count :: 32 word) AND 0x0f)) AND 0x10)))"

partial_function (option)
  nybble_add_no_carryin_2_loop :: "addr \<Rightarrow> 8 word \<Rightarrow> mem \<Rightarrow> mem option" where
  "nybble_add_no_carryin_2_loop base count m =
     (if (ucast count :: 32 word) < 256 then
        nybble_add_no_carryin_2_loop base (count + 1) (nybble_add_no_carryin_2_body base count m)
      else Some m)"

definition setup_nybble_add_no_carryin_2 :: "mem \<Rightarrow> addr \<Rightarrow> mem option" where
  "setup_nybble_add_no_carryin_2 m base = nybble_add_no_carryin_2_loop base 0 m"

text \<open>\<^verbatim>\<open>base[count] = ((((count >> 4) & 0x0f) + (count & 0x0f) + 1) & 0x10) >> 4;\<close>\<close>

definition nybble_add_with_carryin_2_body :: "addr \<Rightarrow> 8 word \<Rightarrow> mem \<Rightarrow> mem" where
  "nybble_add_with_carryin_2_body base count m =
     m(base + ucast count :=
         ucast (drop_bit 4
              (((drop_bit 4 (ucast count :: 32 word) AND 0x0f)
                  + ((ucast count :: 32 word) AND 0x0f) + 1) AND 0x10)))"

partial_function (option)
  nybble_add_with_carryin_2_loop :: "addr \<Rightarrow> 8 word \<Rightarrow> mem \<Rightarrow> mem option" where
  "nybble_add_with_carryin_2_loop base count m =
     (if (ucast count :: 32 word) < 256 then
        nybble_add_with_carryin_2_loop base (count + 1) (nybble_add_with_carryin_2_body base count m)
      else Some m)"

definition setup_nybble_add_with_carryin_2 :: "mem \<Rightarrow> addr \<Rightarrow> mem option" where
  "setup_nybble_add_with_carryin_2 m base = nybble_add_with_carryin_2_loop base 0 m"

subsection \<open>\<^verbatim>\<open>setup_nybble_compare_equal\<close> and \<^verbatim>\<open>build_lut8_add\<close>\<close>

text \<open>\<^verbatim>\<open>base[count] = ((count & 0x0f) == ((count >> 4) & 0x0f)) ? a : b;\<close>\<close>

definition nybble_compare_equal_body ::
  "addr \<Rightarrow> 8 word \<Rightarrow> 8 word \<Rightarrow> 8 word \<Rightarrow> mem \<Rightarrow> mem" where
  "nybble_compare_equal_body base a b count m =
     m(base + ucast count :=
         (if ((ucast count :: 32 word) AND 0x0f) = (drop_bit 4 (ucast count :: 32 word) AND 0x0f)
          then a else b))"

partial_function (option)
  nybble_compare_equal_loop :: "addr \<Rightarrow> 8 word \<Rightarrow> 8 word \<Rightarrow> 8 word \<Rightarrow> mem \<Rightarrow> mem option"
  where
  "nybble_compare_equal_loop base a b count m =
     (if (ucast count :: 32 word) < 256 then
        nybble_compare_equal_loop base a b (count + 1)
          (nybble_compare_equal_body base a b count m)
      else Some m)"

definition setup_nybble_compare_equal :: "mem \<Rightarrow> addr \<Rightarrow> 8 word \<Rightarrow> 8 word \<Rightarrow> mem option"
  where
  "setup_nybble_compare_equal m base a b = nybble_compare_equal_loop base a b 0 m"

text \<open>
  The first \<open>n\<close> rounds (test, body, \<^verbatim>\<open>count++\<close>) of a loop of this shape, from a given
  counter and memory: the counter and the memory the loop has reached by then.
\<close>

fun for_count_rounds ::
  "(8 word \<Rightarrow> mem \<Rightarrow> mem) \<Rightarrow> nat \<Rightarrow> 8 word \<Rightarrow> mem \<Rightarrow> 8 word \<times> mem" where
  "for_count_rounds body 0 count m = (count, m)"
| "for_count_rounds body (Suc n) count m =
     (if (ucast count :: 32 word) < 256
      then for_count_rounds body n (count + 1) (body count m)
      else (count, m))"

text \<open>
  \<^verbatim>\<open>build_lut8_add\<close> is the stub \<^verbatim>\<open>// unimplemented\<close> \<^verbatim>\<open>while(1);\<close>: a loop with an
  empty body and a constant true condition.
\<close>

partial_function (option) build_lut8_add_loop :: "mem \<Rightarrow> mem option" where
  "build_lut8_add_loop m = (if (1 :: 32 word) \<noteq> 0 then build_lut8_add_loop m else Some m)"

definition build_lut8_add :: "mem \<Rightarrow> addr \<Rightarrow> mem option" where
  "build_lut8_add m base = build_lut8_add_loop m"

section \<open>The descriptor chain of the 8-bit add\<close>

subsection \<open>Descriptor layout\<close>

text \<open>
  Modelled from the spec: the type \<^verbatim>\<open>DmacDescriptor\<close> is declared in a header that is
  not part of the sources.  The spec gives the record as a control word, a transfer
  count, a source address, a destination address and a next-descriptor address, in this
  order; the code stores a \<^verbatim>\<open>uint16_t\<close> control word and addresses of a 32-bit
  machine, and the hardware record is 16 bytes: a descriptor is 16 bytes long.
\<close>

definition sizeof_DmacDescriptor :: addr where
  "sizeof_DmacDescriptor = 16"

text \<open>
  Modelled from the spec: the source-address field of the absent \<^verbatim>\<open>DmacDescriptor\<close>
  declaration holds one 32-bit address, so one element of its type is 4 bytes.  C
  pointer arithmetic on \<^verbatim>\<open>&descs[2].SRCADDR\<close> moves in units of this size.
\<close>

definition sizeof_SRCADDR :: addr where
  "sizeof_SRCADDR = 4"

text \<open>
  Modelled from the spec: byte offsets of the five fields of the absent
  \<^verbatim>\<open>DmacDescriptor\<close> declaration, in the spec's order with 16-bit \<^verbatim>\<open>BTCTRL\<close> and
  \<^verbatim>\<open>BTCNT\<close> and 32-bit address fields.
\<close>

definition BTCTRL_of :: "addr \<Rightarrow> addr" where
  "BTCTRL_of d = d + 0"

definition BTCNT_of :: "addr \<Rightarrow> addr" where
  "BTCNT_of d = d + 2"

definition SRCADDR_of :: "addr \<Rightarrow> addr" where
  "SRCADDR_of d = d + 4"

definition DSTADDR_of :: "addr \<Rightarrow> addr" where
  "DSTADDR_of d = d + 8"

definition DESCADDR_of :: "addr \<Rightarrow> addr" where
  "DESCADDR_of d = d + 12"

text \<open>\<^verbatim>\<open>&descs[i]\<close>\<close>

definition desc_addr :: "addr \<Rightarrow> int \<Rightarrow> addr" where
  "desc_addr descs i = descs + of_int i * sizeof_DmacDescriptor"

subsection \<open>\<^verbatim>\<open>build_add8_using_nybbles\<close>\<close>

definition default_btctrl :: "16 word" where
  "default_btctrl =
     (push_bit 13 0 OR push_bit 12 0 OR push_bit 11 0 OR push_bit 10 0
        OR push_bit 8 0 OR push_bit 3 0 OR push_bit 1 0 OR push_bit 0 1)"

text \<open>
  Every descriptor block of the function opens with the same two statements,
  \<^verbatim>\<open>descs[i].BTCTRL = default_btctrl; descs[i].BTCNT = n;\<close>.
\<close>

definition desc_header :: "mem \<Rightarrow> addr \<Rightarrow> 16 word \<Rightarrow> mem" where
  "desc_header m d btcnt =
     (let m = write16 m (BTCTRL_of d) default_btctrl;
          m = write16 m (BTCNT_of d) btcnt
      in m)"

text \<open>
  The block of \<^verbatim>\<open>descs[0]\<close>.  \<^verbatim>\<open>descs[0].SRCADDR = *opa\<close> reads the byte at \<open>opa\<close>
  from the memory as it is after the two statements before it.
\<close>

definition build_descs0 :: "mem \<Rightarrow> addr \<Rightarrow> addr \<Rightarrow> mem" where
  "build_descs0 m descs opa =
     (let m = desc_header m (desc_addr descs 0) 1;
          m = write32 m (SRCADDR_of (desc_addr descs 0)) (ucast (m opa));
          m = write32 m (DSTADDR_of (desc_addr descs 0)) (SRCADDR_of (desc_addr descs 2));
          m = write32 m (DESCADDR_of (desc_addr descs 0)) (desc_addr descs 1)
      in m)"

text \<open>
  The block of \<^verbatim>\<open>descs[1]\<close>.  In \<^verbatim>\<open>&descs[2].SRCADDR + 1\<close> the \<^verbatim>\<open>&\<close> applies to
  the field and the sum is pointer arithmetic on a pointer to that field: one element,
  \<open>sizeof_SRCADDR\<close> bytes.
\<close>

definition build_descs1 :: "mem \<Rightarrow> addr \<Rightarrow> addr \<Rightarrow> mem" where
  "build_descs1 m descs opb =
     (let m = desc_header m (desc_addr descs 1) 1;
          m = write32 m (SRCADDR_of (desc_addr descs 1)) (ucast (m opb));
          m = write32 m (DSTADDR_of (desc_addr descs 1))
                (SRCADDR_of (desc_addr descs 2) + 1 * sizeof_SRCADDR);
          m = write32 m (DESCADDR_of (desc_addr descs 1)) (desc_addr descs 2)
      in m)"

text \<open>
  The block of \<^verbatim>\<open>descs[2]\<close>; its \<^verbatim>\<open>SRCADDR\<close> assignment is commented out in the
  source.  \<open>scratch\<close> is the address of the function's \<^verbatim>\<open>static uint8_t scratch[4]\<close>,
  fixed at link time and the same in every call.
\<close>

definition build_descs2 :: "addr \<Rightarrow> mem \<Rightarrow> addr \<Rightarrow> mem" where
  "build_descs2 scratch m descs =
     (let m = desc_header m (desc_addr descs 2) 2;
          m = write32 m (DSTADDR_of (desc_addr descs 2)) (scratch + 2);
          m = write32 m (DESCADDR_of (desc_addr descs 2)) (desc_addr descs 2)
      in m)"

text \<open>
  The whole function: the three blocks in order, then the end of the body (the
  remaining stages are comments).  The parameter \<open>result\<close> is never used.
\<close>

definition build_add8_using_nybbles ::
  "addr \<Rightarrow> mem \<Rightarrow> addr \<Rightarrow> addr \<Rightarrow> addr \<Rightarrow> addr \<Rightarrow> mem option" where
  "build_add8_using_nybbles scratch m descs opa opb result =
     (let m = build_descs0 m descs opa;
          m = build_descs1 m descs opb;
          m = build_descs2 scratch m descs
      in Some m)"


section \<open>A concrete call\<close>

text \<open>
  One call of \<^verbatim>\<open>build_add8_using_nybbles\<close> on concrete addresses, used to evaluate the
  builder: the descriptor array at \<open>0x20000000\<close>, operand A (\<open>0x3F\<close>) at \<open>0x20001000\<close>,
  operand B (\<open>0x01\<close>) at \<open>0x20001001\<close>, the result byte at \<open>0x20001002\<close>, the static
  scratch buffer at \<open>0x20002000\<close>, all other memory zero.
\<close>

definition add8_example_mem :: mem where
  "add8_example_mem = (zero_mem(0x20001000 := 0x3F))(0x20001001 := 0x01)"

definition add8_example :: "mem option" where
  "add8_example =
     build_add8_using_nybbles 0x20002000 add8_example_mem 0x20000000
       0x20001000 0x20001001 0x20001002"

text \<open>A second call: another descriptor array, other operands, another result byte.\<close>

definition add8_example2 :: "mem option" where
  "add8_example2 =
     build_add8_using_nybbles 0x20002000 add8_example_mem 0x20000100
       0x20001010 0x20001011 0x20001012"

section \<open>The 16x256 table: what the three loops leave behind\<close>

lemma unat_idx:
  fixes k l h :: "32 word"
  assumes "k < 16" "l < 16" "h < 16"
  shows "unat (k * 16 + l + h * 256) = unat k * 16 + unat l + unat h * 256"
proof -
  from assms have b: "unat k < 16" "unat l < 16" "unat h < 16"
    by (simp_all add: word_less_nat_alt)
  then show ?thesis
    by (simp add: unat_word_ariths)
qed

lemma idx_div:
  fixes k l h :: "32 word"
  assumes "k < 16" "l < 16" "h < 16"
  shows "(k * 16 + l + h * 256) div 256 = h"
proof -
  from assms have b: "unat k < 16" "unat l < 16" "unat h < 16"
    by (simp_all add: word_less_nat_alt)
  have "unat ((k * 16 + l + h * 256) div 256) = unat h"
    using b by (simp add: unat_div unat_idx [OF assms])
  then show ?thesis by (simp add: word_unat_eq_iff)
qed

lemma idx_mod:
  fixes k l h :: "32 word"
  assumes "k < 16" "l < 16" "h < 16"
  shows "(k * 16 + l + h * 256) mod 16 = l"
proof -
  from assms have b: "unat k < 16" "unat l < 16" "unat h < 16"
    by (simp_all add: word_less_nat_alt)
  have e: "unat k * 16 + unat l + unat h * 256 = unat l + (unat k + unat h * 16) * 16"
    by simp
  have "(unat l + (unat k + unat h * 16) * 16) mod 16 = unat l"
    using b(2) by (simp only: mod_mult_self1 mod_less)
  then have "unat (k * 16 + l + h * 256) mod 16 = unat l"
    by (simp only: unat_idx [OF assms] e)
  moreover have "unat ((k * 16 + l + h * 256) mod 16) = unat (k * 16 + l + h * 256) mod 16"
    by (simp add: unat_mod)
  ultimately show ?thesis by (simp add: word_unat_eq_iff)
qed

lemma combine_entry_idx:
  fixes k l h :: "32 word"
  assumes "k < 16" "l < 16" "h < 16"
  shows "combine_entry (k * 16 + l + h * 256) = ucast (push_bit 4 h OR l)"
  unfolding combine_entry_def by (simp only: idx_div [OF assms] idx_mod [OF assms])

lemma word_le_step:
  fixes d k :: "32 word"
  assumes "d < 16"
  shows "d \<le> k \<longleftrightarrow> k = d \<or> d + 1 \<le> k"
proof -
  from assms have "unat d < 16" by (simp add: word_less_nat_alt)
  then have "unat (d + 1) = unat d + 1" by (simp add: unat_word_ariths)
  then show ?thesis
    by (auto simp: word_le_nat_alt word_unat_eq_iff)
qed

lemma dup_count_loop_eq:
  "l < 16 \<Longrightarrow> h < 16 \<Longrightarrow> dup_count_loop base h l d m =
    (\<lambda>a. if \<exists>k. d \<le> k \<and> k < 16 \<and> a - base = k * 16 + l + h * 256
          then combine_entry (a - base) else m a)"
proof (induction base h l d m rule: dup_count_loop.induct)
  case (1 base h l d m)
  note lh = "1.prems"
  show ?case
  proof (cases "d < 16")
    case True
    have step: "dup_count_loop base h l d m =
        dup_count_loop base h l (d + 1)
          (m(base + (d * 16 + l * 1 + h * 256) := ucast (push_bit 4 h OR l)))"
      using True by (subst dup_count_loop.simps) (simp add: Let_def)
    have val: "ucast (push_bit 4 h OR l) = combine_entry (d * 16 + l + h * 256)"
      by (rule combine_entry_idx [OF True lh, symmetric])
    have ex: "(\<exists>k. d \<le> k \<and> k < 16 \<and> x = k * 16 + l + h * 256) \<longleftrightarrow>
              x = d * 16 + l + h * 256 \<or> (\<exists>k. d + 1 \<le> k \<and> k < 16 \<and> x = k * 16 + l + h * 256)"
      for x :: "32 word"
      using True by (subst word_le_step [OF True]) blast
    show ?thesis
    proof (rule ext)
      fix a
      have addr: "a = base + (d * 16 + l + h * 256) \<longleftrightarrow> a - base = d * 16 + l + h * 256"
        by (simp only: diff_eq_eq) (simp only: add.commute)
      show "dup_count_loop base h l d m a =
        (if \<exists>k. d \<le> k \<and> k < 16 \<and> a - base = k * 16 + l + h * 256
         then combine_entry (a - base) else m a)"
        unfolding step "1.IH" [OF True refl refl lh] ex [of "a - base"]
        using val by (auto simp: addr)
    qed
  next
    case False
    then have none: "\<not> (d \<le> k \<and> k < 16 \<and> Q)" for k :: "32 word" and Q
      by (auto dest: order.strict_trans1)
    show ?thesis
      using False by (subst dup_count_loop.simps) (simp add: none)
  qed
qed

lemma low_nybble_loop_eq:
  "h < 16 \<Longrightarrow> low_nybble_loop base h l m =
    (\<lambda>a. if \<exists>l' k. l \<le> l' \<and> l' < 16 \<and> k < 16 \<and> a - base = k * 16 + l' + h * 256
          then combine_entry (a - base) else m a)"
proof (induction base h l m rule: low_nybble_loop.induct)
  case (1 base h l m)
  note h = "1.prems"
  show ?case
  proof (cases "l < 16")
    case True
    have step: "low_nybble_loop base h l m =
        low_nybble_loop base h (l + 1) (dup_count_loop base h l 0 m)"
      using True by (subst low_nybble_loop.simps) simp
    have ex: "(\<exists>l' k. l \<le> l' \<and> l' < 16 \<and> k < 16 \<and> x = k * 16 + l' + h * 256) \<longleftrightarrow>
              (\<exists>k. k < 16 \<and> x = k * 16 + l + h * 256)
              \<or> (\<exists>l' k. l + 1 \<le> l' \<and> l' < 16 \<and> k < 16 \<and> x = k * 16 + l' + h * 256)"
      for x :: "32 word"
      using True by (subst word_le_step [OF True]) blast
    show ?thesis
      apply (simp only: step "1.IH" [OF True h])
      apply (simp only: dup_count_loop_eq [OF True h] ex)
      apply (auto simp: fun_eq_iff)
      done
  next
    case False
    then have none: "\<not> (l \<le> k \<and> k < 16 \<and> Q)" for k :: "32 word" and Q
      by (auto dest: order.strict_trans1)
    show ?thesis
      using False by (subst low_nybble_loop.simps) (simp add: none)
  qed
qed

lemma high_nybble_loop_eq:
  "high_nybble_loop base h m =
    (\<lambda>a. if \<exists>h' l k. h \<le> h' \<and> h' < 16 \<and> l < 16 \<and> k < 16 \<and> a - base = k * 16 + l + h' * 256
          then combine_entry (a - base) else m a)"
proof (induction base h m rule: high_nybble_loop.induct)
  case (1 base h m)
  show ?case
  proof (cases "h < 16")
    case True
    have step: "high_nybble_loop base h m =
        high_nybble_loop base (h + 1) (low_nybble_loop base h 0 m)"
      using True by (subst high_nybble_loop.simps) simp
    have ex: "(\<exists>h' l k. h \<le> h' \<and> h' < 16 \<and> l < 16 \<and> k < 16 \<and> x = k * 16 + l + h' * 256) \<longleftrightarrow>
              (\<exists>l k. l < 16 \<and> k < 16 \<and> x = k * 16 + l + h * 256)
              \<or> (\<exists>h' l k. h + 1 \<le> h' \<and> h' < 16 \<and> l < 16 \<and> k < 16 \<and> x = k * 16 + l + h' * 256)"
      for x :: "32 word"
      using True by (subst word_le_step [OF True]) blast
    show ?thesis
      apply (simp only: step "1.IH" [OF True])
      apply (simp only: low_nybble_loop_eq [OF True] ex)
      apply (auto simp: fun_eq_iff)
      done
  next
    case False
    then have none: "\<not> (h \<le> k \<and> k < 16 \<and> Q)" for k :: "32 word" and Q
      by (auto dest: order.strict_trans1)
    show ?thesis
      using False by (subst high_nybble_loop.simps) (simp add: none)
  qed
qed

lemma offset_decompose:
  fixes x :: "32 word"
  shows "(\<exists>h l k. h < 16 \<and> l < 16 \<and> k < 16 \<and> x = k * 16 + l + h * 256) \<longleftrightarrow> x < 4096"
proof
  assume "\<exists>h l k. h < 16 \<and> l < 16 \<and> k < 16 \<and> x = k * 16 + l + h * 256"
  then obtain h l k where b: "k < 16" "l < 16" "h < 16" and x: "x = k * 16 + l + h * 256"
    by blast
  from b have "unat k < 16" "unat l < 16" "unat h < 16"
    by (simp_all add: word_less_nat_alt)
  then have "unat x < 4096"
    unfolding x unat_idx [OF b] by simp
  then show "x < 4096"
    by (simp add: word_less_nat_alt)
next
  assume "x < 4096"
  then have ux: "unat x < 4096"
    by (simp add: word_less_nat_alt)
  let ?h = "of_nat (unat x div 256) :: 32 word"
  let ?k = "of_nat ((unat x div 16) mod 16) :: 32 word"
  let ?l = "of_nat (unat x mod 16) :: 32 word"
  have uh: "unat ?h = unat x div 256" and uk: "unat ?k = (unat x div 16) mod 16"
    and ul: "unat ?l = unat x mod 16"
    using ux by (simp_all add: unat_of_nat)
  have b: "?k < 16" "?l < 16" "?h < 16"
    using ux by (simp_all add: word_less_nat_alt uh uk ul)
  have "unat x mod (16 * 16) = 16 * (unat x div 16 mod 16) + unat x mod 16"
    by (rule mod_mult2_eq)
  moreover have "unat x = unat x div 256 * 256 + unat x mod 256"
    by simp
  ultimately have "unat x = (unat x div 16) mod 16 * 16 + unat x mod 16 + unat x div 256 * 256"
    by simp
  then have "unat x = unat (?k * 16 + ?l + ?h * 256)"
    unfolding unat_idx [OF b] uh uk ul .
  then have "x = ?k * 16 + ?l + ?h * 256"
    by (simp only: word_unat_eq_iff)
  with b show "\<exists>h l k. h < 16 \<and> l < 16 \<and> k < 16 \<and> x = k * 16 + l + h * 256"
    by blast
qed

lemma high_nybble_loop_0:
  "high_nybble_loop base 0 m =
     (\<lambda>a. if a - base < 4096 then combine_entry (a - base) else m a)"
  by (simp only: high_nybble_loop_eq word_zero_le simp_thms offset_decompose)

lemma ucast_of_nat_8: "(ucast (of_nat n :: 32 word) :: 8 word) = of_nat n"
  by (simp add: unsigned_of_nat word_of_nat_eq_iff take_bit_take_bit)

lemma combine_value:
  "(ucast (push_bit 4 (of_nat hi :: 32 word) OR of_nat lo) :: 8 word) = of_nat (push_bit 4 hi OR lo)"
  by (simp add: ucast_of_nat_8 flip: of_nat_push_bit of_nat_or_eq)

lemma of_nat_lt_16: "n < 16 \<Longrightarrow> (of_nat n :: 32 word) < 16"
  by (simp add: word_less_nat_alt unat_of_nat)

text \<open>
  C5: after \<^verbatim>\<open>setup_low_nybble_low_nybble_to_byte\<close> has populated its 16x256 table,
  for every \<open>hi\<close>, \<open>lo\<close> and \<open>pad\<close> in 0..15 the entry at index
  \<open>hi * 256 + pad * 16 + lo\<close> is \<open>(hi << 4) | lo\<close>: the builder returns, and the byte it
  leaves at that offset from \<open>base\<close> does not depend on \<open>pad\<close>.
\<close>

theorem combine_table_entries:
  fixes hi lo pad :: nat
  assumes "hi < 16" "lo < 16" "pad < 16"
  shows "byte_after (setup_low_nybble_low_nybble_to_byte m base)
           (base + of_nat (hi * 256 + pad * 16 + lo))
         = Some (of_nat (push_bit 4 hi OR lo))"
proof -
  let ?h = "of_nat hi :: 32 word" and ?l = "of_nat lo :: 32 word"
    and ?k = "of_nat pad :: 32 word"
  have b: "?k < 16" "?l < 16" "?h < 16"
    using assms by (simp_all add: of_nat_lt_16)
  have off: "(of_nat (hi * 256 + pad * 16 + lo) :: 32 word) = ?k * 16 + ?l + ?h * 256"
    by simp
  have "?k * 16 + ?l + ?h * 256 < 4096"
    using b offset_decompose [of "?k * 16 + ?l + ?h * 256"] by blast
  then show ?thesis
    unfolding off setup_low_nybble_low_nybble_to_byte_def byte_after_def
    by (simp add: high_nybble_loop_0 combine_entry_idx [OF b] combine_value)
qed

theorem combine_table_entries_witness:
  "(3::nat) < 16 \<and> (5::nat) < 16 \<and> (7::nat) < 16 \<and>
   byte_after (setup_low_nybble_low_nybble_to_byte zero_mem 0x20000000) 0x20000375 = Some 0x35"
  using combine_table_entries [of 3 5 7 zero_mem "0x20000000"] by simp

text \<open>
  The builder on a buffer that is too small: the caller owns 16 bytes at \<open>0x20000000\<close>
  (all memory zero).  The call returns, and the byte 4095 places after \<open>base\<close>, far
  outside those 16 bytes, has changed from \<open>0\<close> to \<open>0xFF\<close>.
\<close>

theorem combine_builder_writes_past_small_buffer:
  "byte_after (setup_low_nybble_low_nybble_to_byte zero_mem 0x20000000) 0x20000FFF = Some 0xFF
   \<and> zero_mem 0x20000FFF = 0"
  by (simp add: setup_low_nybble_low_nybble_to_byte_def high_nybble_loop_0 byte_after_def
      combine_entry_def zero_mem_def)

text \<open>
  C8 (amended): a table builder receives only a base pointer, has no size to compare and
  no failure path.  \<^verbatim>\<open>setup_low_nybble_low_nybble_to_byte\<close> always returns, having
  written all 4096 entries \<open>base[0..4095]\<close> and no other byte, whatever storage the
  caller really owns at \<open>base\<close>.
\<close>

theorem combine_builder_unchecked:
  "\<exists>m'. setup_low_nybble_low_nybble_to_byte m base = Some m'
      \<and> (\<forall>off. off < 4096 \<longrightarrow> m' (base + off) = combine_entry off)
      \<and> (\<forall>a. 4096 \<le> a - base \<longrightarrow> m' a = m a)"
proof -
  have "high_nybble_loop base 0 m (base + off) = combine_entry off" if "off < 4096" for off
    using that by (simp add: high_nybble_loop_0)
  moreover have "high_nybble_loop base 0 m a = m a" if "4096 \<le> a - base" for a
  proof -
    from that have "\<not> a - base < 4096"
      by (simp add: not_less)
    then show ?thesis
      by (simp add: high_nybble_loop_0)
  qed
  ultimately show ?thesis
    by (simp add: setup_low_nybble_low_nybble_to_byte_def)
qed

theorem combine_builder_unchecked_witness:
  "byte_after (setup_low_nybble_low_nybble_to_byte zero_mem 0x20000000) 0x20000010 = Some 0x00
   \<and> byte_after (setup_low_nybble_low_nybble_to_byte zero_mem 0x20000000) 0x20000FFF = Some 0xFF
   \<and> byte_after (setup_low_nybble_low_nybble_to_byte zero_mem 0x20000000) 0x20001000 = Some 0x00"
proof -
  from combine_builder_unchecked [of zero_mem "0x20000000"]
  obtain m' where r: "setup_low_nybble_low_nybble_to_byte zero_mem 0x20000000 = Some m'"
    and w: "\<And>off. off < 4096 \<Longrightarrow> m' (0x20000000 + off) = combine_entry off"
    and f: "\<And>a. 4096 \<le> a - 0x20000000 \<Longrightarrow> m' a = zero_mem a"
    by blast
  have "m' 0x20000010 = combine_entry 0x10"
    using w [of "0x10"] by simp
  moreover have "m' 0x20000FFF = combine_entry 0xFFF"
    using w [of "0xFFF"] by simp
  moreover have "m' 0x20001000 = zero_mem 0x20001000"
    using f [of "0x20001000"] by simp
  ultimately have "m' 0x20000010 = 0x00 \<and> m' 0x20000FFF = 0xFF \<and> m' 0x20001000 = 0x00"
    by (simp add: combine_entry_def zero_mem_def)
  then show ?thesis
    by (simp add: r byte_after_def)
qed

section \<open>Loops that are never left\<close>

text \<open>
  A \<^verbatim>\<open>uint8_t\<close> counter, promoted to \<^verbatim>\<open>int\<close>, is always below 256: the condition
  \<^verbatim>\<open>count < 256\<close> of the one-loop builders never fails.
\<close>

lemma count_lt_256: "(ucast (count :: 8 word) :: 32 word) < 256"
proof -
  have "unat count < 2 ^ 8"
    using unsigned_less [of count, where 'a = nat] by simp
  then have "unat (ucast count :: 32 word) < 256"
    by (simp add: unsigned_ucast_eq take_bit_nat_eq_self)
  then show ?thesis
    by (simp add: word_less_nat_alt)
qed

lemma low_nybble_to_low_nybble_loop_None:
  "low_nybble_to_low_nybble_loop base count m = None"
proof -
  have "False" if "low_nybble_to_low_nybble_loop base count m = Some m'" for m'
    by (rule low_nybble_to_low_nybble_loop.raw_induct [where P = "\<lambda>_ _ _ _. False", OF _ that])
      (simp add: count_lt_256)
  then show ?thesis
    by (cases "low_nybble_to_low_nybble_loop base count m") auto
qed

lemma low_nybble_to_high_nybble_loop_None:
  "low_nybble_to_high_nybble_loop base count m = None"
proof -
  have "False" if "low_nybble_to_high_nybble_loop base count m = Some m'" for m'
    by (rule low_nybble_to_high_nybble_loop.raw_induct [where P = "\<lambda>_ _ _ _. False", OF _ that])
      (simp add: count_lt_256)
  then show ?thesis
    by (cases "low_nybble_to_high_nybble_loop base count m") auto
qed

lemma high_nybble_to_high_nybble_loop_None:
  "high_nybble_to_high_nybble_loop base count m = None"
proof -
  have "False" if "high_nybble_to_high_nybble_loop base count m = Some m'" for m'
    by (rule high_nybble_to_high_nybble_loop.raw_induct [where P = "\<lambda>_ _ _ _. False", OF _ that])
      (simp add: count_lt_256)
  then show ?thesis
    by (cases "high_nybble_to_high_nybble_loop base count m") auto
qed

lemma high_nybble_to_low_nybble_loop_None:
  "high_nybble_to_low_nybble_loop base count m = None"
proof -
  have "False" if "high_nybble_to_low_nybble_loop base count m = Some m'" for m'
    by (rule high_nybble_to_low_nybble_loop.raw_induct [where P = "\<lambda>_ _ _ _. False", OF _ that])
      (simp add: count_lt_256)
  then show ?thesis
    by (cases "high_nybble_to_low_nybble_loop base count m") auto
qed

lemma nybble_add_no_carryin_loop_None:
  "nybble_add_no_carryin_loop base count m = None"
proof -
  have "False" if "nybble_add_no_carryin_loop base count m = Some m'" for m'
    by (rule nybble_add_no_carryin_loop.raw_induct [where P = "\<lambda>_ _ _ _. False", OF _ that])
      (simp add: count_lt_256)
  then show ?thesis
    by (cases "nybble_add_no_carryin_loop base count m") auto
qed

lemma nybble_add_with_carryin_loop_None:
  "nybble_add_with_carryin_loop base count m = None"
proof -
  have "False" if "nybble_add_with_carryin_loop base count m = Some m'" for m'
    by (rule nybble_add_with_carryin_loop.raw_induct [where P = "\<lambda>_ _ _ _. False", OF _ that])
      (simp add: count_lt_256)
  then show ?thesis
    by (cases "nybble_add_with_carryin_loop base count m") auto
qed

lemma nybble_add_no_carryin_2_loop_None:
  "nybble_add_no_carryin_2_loop base count m = None"
proof -
  have "False" if "nybble_add_no_carryin_2_loop base count m = Some m'" for m'
    by (rule nybble_add_no_carryin_2_loop.raw_induct [where P = "\<lambda>_ _ _ _. False", OF _ that])
      (simp add: count_lt_256)
  then show ?thesis
    by (cases "nybble_add_no_carryin_2_loop base count m") auto
qed

lemma nybble_add_with_carryin_2_loop_None:
  "nybble_add_with_carryin_2_loop base count m = None"
proof -
  have "False" if "nybble_add_with_carryin_2_loop base count m = Some m'" for m'
    by (rule nybble_add_with_carryin_2_loop.raw_induct [where P = "\<lambda>_ _ _ _. False", OF _ that])
      (simp add: count_lt_256)
  then show ?thesis
    by (cases "nybble_add_with_carryin_2_loop base count m") auto
qed

lemma nybble_compare_equal_loop_None:
  "nybble_compare_equal_loop base a b count m = None"
proof -
  have "False" if "nybble_compare_equal_loop base a b count m = Some m'" for m'
    by (rule nybble_compare_equal_loop.raw_induct [where P = "\<lambda>_ _ _ _ _ _. False", OF _ that])
      (simp add: count_lt_256)
  then show ?thesis
    by (cases "nybble_compare_equal_loop base a b count m") auto
qed

lemma build_lut8_add_loop_None: "build_lut8_add_loop m = None"
proof -
  have "False" if "build_lut8_add_loop m = Some m'" for m'
    by (rule build_lut8_add_loop.raw_induct [where P = "\<lambda>_ _. False", OF _ that]) simp
  then show ?thesis
    by (cases "build_lut8_add_loop m") auto
qed

lemma setup_nybble_compare_equal_None: "setup_nybble_compare_equal m base a b = None"
  by (simp add: setup_nybble_compare_equal_def nybble_compare_equal_loop_None)

subsection \<open>What the one-loop builders store while they run\<close>

text \<open>
  The values the loop bodies compute on the promoted counter, read as bytes; then the
  memory after \<open>n\<close> rounds of a loop whose body stores \<open>f count\<close> at \<open>base[count]\<close>.
  From round 256 on, entry \<open>i\<close> holds \<open>f i\<close> for every byte \<open>i\<close>, and stays so.  The
  sums \<open>hi + lo + carry_in\<close> are at most 31, so the byte additions below do not wrap.
\<close>

lemma take_bit_8_of_32_add: "take_bit 8 (take_bit 32 (x::int) + take_bit 32 y) = take_bit 8 (x + y)"
proof -
  have "take_bit 8 (take_bit 32 x + take_bit 32 y)
      = take_bit 8 (take_bit 8 (take_bit 32 x) + take_bit 8 (take_bit 32 y))"
    by (simp only: take_bit_add)
  also have "\<dots> = take_bit 8 (take_bit 8 x + take_bit 8 y)"
    by (simp only: take_bit_take_bit)
  also have "\<dots> = take_bit 8 (x + y)"
    by (simp only: take_bit_add)
  finally show ?thesis .
qed

lemma ucast_add_down: "(ucast (a + b :: 32 word) :: 8 word) = ucast a + ucast b"
  apply transfer
  apply (simp add: take_bit_8_of_32_add)
  done

lemma low_low_value: "(ucast (push_bit 0 (ucast (c :: 8 word) :: 32 word) AND 0x0f) :: 8 word) = c AND 0x0f"
  by (rule bit_word_eqI) (auto simp: bit_simps)

lemma low_high_value: "(ucast (push_bit 4 (ucast (c :: 8 word) :: 32 word) AND 0xf0) :: 8 word) = push_bit 4 c AND 0xf0"
  by (rule bit_word_eqI) (auto simp: bit_simps)

lemma high_high_value: "(ucast (push_bit 0 (ucast (c :: 8 word) :: 32 word) AND 0xf0) :: 8 word) = c AND 0xf0"
  by (rule bit_word_eqI) (auto simp: bit_simps)

lemma high_low_value: "(ucast (drop_bit 4 (ucast (c :: 8 word) :: 32 word) AND 0x0f) :: 8 word) = drop_bit 4 c AND 0x0f"
  by (rule bit_word_eqI) (auto simp: bit_simps)

lemma low_nybble_value: "(ucast ((ucast (c :: 8 word) :: 32 word) AND 0x0f) :: 8 word) = c AND 0x0f"
  by (rule bit_word_eqI) (auto simp: bit_simps)

lemma mask_0f_value: "(ucast ((s :: 32 word) AND 0x0f) :: 8 word) = ucast s AND 0x0f"
  by (rule bit_word_eqI) (auto simp: bit_simps)

lemma carry_bit_value: "(ucast (drop_bit 4 ((s :: 32 word) AND 0x10)) :: 8 word) = drop_bit 4 (ucast s) AND 1"
  by (rule bit_word_eqI) (auto simp: bit_simps)


lemma ucast_down_up: "(ucast (ucast (c :: 8 word) :: 32 word) :: 8 word) = c"
  by (rule bit_word_eqI) (auto simp: bit_simps)

lemma rounds_fill:
  assumes body: "\<And>count m. body count m = m(base + ucast count := f count)"
  shows "for_count_rounds body n count m =
    (count + of_nat n,
     \<lambda>a. if \<exists>k<n. a - base = ucast (count + of_nat k) then f (ucast (a - base)) else m a)"
proof (induction n arbitrary: count m)
  case 0
  show ?case by simp
next
  case (Suc n)
  have ex: "(\<exists>k<Suc n. a - base = ucast (count + of_nat k)) \<longleftrightarrow>
      a = base + ucast count \<or> (\<exists>k<n. a - base = ucast (count + 1 + of_nat k))" for a
  proof -
    have "(\<exists>k<Suc n. a - base = ucast (count + of_nat k)) \<longleftrightarrow>
      a - base = ucast (count + of_nat 0) \<or> (\<exists>k<n. a - base = ucast (count + of_nat (Suc k)))"
      by (metis less_Suc_eq_0_disj)
    moreover have "a - base = ucast count \<longleftrightarrow> a = base + ucast count"
      by (simp only: diff_eq_eq) (simp only: add.commute)
    ultimately show ?thesis
      by (simp add: add.assoc)
  qed
  have step: "for_count_rounds body (Suc n) count m =
      for_count_rounds body n (count + 1) (m(base + ucast count := f count))"
    by (simp add: count_lt_256 body [of count m])
  show ?case
    unfolding step Suc.IH
    by (auto simp: ex fun_eq_iff ucast_down_up add.assoc)
qed

lemma rounds_fill_256:
  assumes body: "\<And>count m. body count m = m(base + ucast count := f count)"
    and n: "256 \<le> n"
  shows "snd (for_count_rounds body n 0 m) (base + ucast i) = f i"
proof -
  have "unat i < 256"
    using unsigned_less [of i, where 'a = nat] by simp
  with n have "unat i < n" by simp
  moreover have "(ucast i :: 32 word) = ucast (0 + of_nat (unat i) :: 8 word)"
    by simp
  ultimately have "\<exists>k<n. (base + ucast i) - base = ucast (0 + of_nat k :: 8 word)"
    by (metis add_diff_cancel_left')
  then show ?thesis
    by (simp add: rounds_fill [OF body] ucast_down_up)
qed


lemma nybble_sum_value:
  fixes c :: "8 word"
  shows "(ucast (((drop_bit 4 (ucast c :: 32 word) AND 0x0f) + ((ucast c :: 32 word) AND 0x0f)) AND 0x0f) :: 8 word)
     = ((drop_bit 4 c AND 0x0f) + (c AND 0x0f)) AND 0x0f"
proof -
  let ?A = "drop_bit 4 (ucast c :: 32 word) AND 0x0f" and ?B = "(ucast c :: 32 word) AND 0x0f"
  have "(ucast ((?A + ?B) AND 0x0f) :: 8 word) = ucast (?A + ?B) AND 0x0f"
    by (rule mask_0f_value)
  also have "(ucast (?A + ?B) :: 8 word) = ucast ?A + ucast ?B"
    by (rule ucast_add_down)
  also have "(ucast ?A :: 8 word) = drop_bit 4 c AND 0x0f"
    by (rule high_low_value)
  also have "(ucast ?B :: 8 word) = c AND 0x0f"
    by (rule low_nybble_value)
  finally show ?thesis .
qed

lemma nybble_sum1_value:
  fixes c :: "8 word"
  shows "(ucast (((drop_bit 4 (ucast c :: 32 word) AND 0x0f) + ((ucast c :: 32 word) AND 0x0f) + 1) AND 0x0f) :: 8 word)
     = ((drop_bit 4 c AND 0x0f) + (c AND 0x0f) + 1) AND 0x0f"
proof -
  let ?A = "drop_bit 4 (ucast c :: 32 word) AND 0x0f" and ?B = "(ucast c :: 32 word) AND 0x0f"
  have "(ucast ((?A + ?B + 1) AND 0x0f) :: 8 word) = ucast (?A + ?B + 1) AND 0x0f"
    by (rule mask_0f_value)
  also have "(ucast (?A + ?B + 1) :: 8 word) = ucast (?A + ?B) + ucast (1 :: 32 word)"
    by (rule ucast_add_down)
  also have "(ucast (?A + ?B) :: 8 word) = ucast ?A + ucast ?B"
    by (rule ucast_add_down)
  also have "(ucast ?A :: 8 word) = drop_bit 4 c AND 0x0f"
    by (rule high_low_value)
  also have "(ucast ?B :: 8 word) = c AND 0x0f"
    by (rule low_nybble_value)
  also have "(ucast (1 :: 32 word) :: 8 word) = 1"
    by simp
  finally show ?thesis .
qed

lemma nybble_carry_value:
  fixes c :: "8 word"
  shows "(ucast (drop_bit 4 (((drop_bit 4 (ucast c :: 32 word) AND 0x0f) + ((ucast c :: 32 word) AND 0x0f)) AND 0x10)) :: 8 word)
     = drop_bit 4 ((drop_bit 4 c AND 0x0f) + (c AND 0x0f)) AND 1"
proof -
  let ?A = "drop_bit 4 (ucast c :: 32 word) AND 0x0f" and ?B = "(ucast c :: 32 word) AND 0x0f"
  have "(ucast (drop_bit 4 ((?A + ?B) AND 0x10)) :: 8 word) = drop_bit 4 (ucast (?A + ?B)) AND 1"
    by (rule carry_bit_value)
  also have "(ucast (?A + ?B) :: 8 word) = ucast ?A + ucast ?B"
    by (rule ucast_add_down)
  also have "(ucast ?A :: 8 word) = drop_bit 4 c AND 0x0f"
    by (rule high_low_value)
  also have "(ucast ?B :: 8 word) = c AND 0x0f"
    by (rule low_nybble_value)
  finally show ?thesis .
qed

lemma nybble_carry1_value:
  fixes c :: "8 word"
  shows "(ucast (drop_bit 4 (((drop_bit 4 (ucast c :: 32 word) AND 0x0f) + ((ucast c :: 32 word) AND 0x0f) + 1) AND 0x10)) :: 8 word)
     = drop_bit 4 ((drop_bit 4 c AND 0x0f) + (c AND 0x0f) + 1) AND 1"
proof -
  let ?A = "drop_bit 4 (ucast c :: 32 word) AND 0x0f" and ?B = "(ucast c :: 32 word) AND 0x0f"
  have "(ucast (drop_bit 4 ((?A + ?B + 1) AND 0x10)) :: 8 word) = drop_bit 4 (ucast (?A + ?B + 1)) AND 1"
    by (rule carry_bit_value)
  also have "(ucast (?A + ?B + 1) :: 8 word) = ucast (?A + ?B) + ucast (1 :: 32 word)"
    by (rule ucast_add_down)
  also have "(ucast (?A + ?B) :: 8 word) = ucast ?A + ucast ?B"
    by (rule ucast_add_down)
  also have "(ucast ?A :: 8 word) = drop_bit 4 c AND 0x0f"
    by (rule high_low_value)
  also have "(ucast ?B :: 8 word) = c AND 0x0f"
    by (rule low_nybble_value)
  also have "(ucast (1 :: 32 word) :: 8 word) = 1"
    by simp
  finally show ?thesis .
qed

lemma low_nybble_to_low_nybble_rounds:
  assumes "256 \<le> n"
  shows "snd (for_count_rounds (low_nybble_to_low_nybble_body base) n 0 m) (base + ucast i)
     = i AND 0x0f"
proof -
  have "snd (for_count_rounds (low_nybble_to_low_nybble_body base) n 0 m) (base + ucast i)
      = ucast (push_bit 0 (ucast i :: 32 word) AND 0x0f)"
    by (rule rounds_fill_256
          [where f = "\<lambda>count. ucast (push_bit 0 (ucast count :: 32 word) AND 0x0f)", OF _ assms])
      (simp only: low_nybble_to_low_nybble_body_def)
  then show ?thesis
    by (simp only: low_low_value)
qed

lemma low_nybble_to_high_nybble_rounds:
  assumes "256 \<le> n"
  shows "snd (for_count_rounds (low_nybble_to_high_nybble_body base) n 0 m) (base + ucast i)
     = push_bit 4 i AND 0xf0"
proof -
  have "snd (for_count_rounds (low_nybble_to_high_nybble_body base) n 0 m) (base + ucast i)
      = ucast (push_bit 4 (ucast i :: 32 word) AND 0xf0)"
    by (rule rounds_fill_256
          [where f = "\<lambda>count. ucast (push_bit 4 (ucast count :: 32 word) AND 0xf0)", OF _ assms])
      (simp only: low_nybble_to_high_nybble_body_def)
  then show ?thesis
    by (simp only: low_high_value)
qed

lemma high_nybble_to_high_nybble_rounds:
  assumes "256 \<le> n"
  shows "snd (for_count_rounds (high_nybble_to_high_nybble_body base) n 0 m) (base + ucast i)
     = i AND 0xf0"
proof -
  have "snd (for_count_rounds (high_nybble_to_high_nybble_body base) n 0 m) (base + ucast i)
      = ucast (push_bit 0 (ucast i :: 32 word) AND 0xf0)"
    by (rule rounds_fill_256
          [where f = "\<lambda>count. ucast (push_bit 0 (ucast count :: 32 word) AND 0xf0)", OF _ assms])
      (simp only: high_nybble_to_high_nybble_body_def)
  then show ?thesis
    by (simp only: high_high_value)
qed

lemma high_nybble_to_low_nybble_rounds:
  assumes "256 \<le> n"
  shows "snd (for_count_rounds (high_nybble_to_low_nybble_body base) n 0 m) (base + ucast i)
     = drop_bit 4 i AND 0x0f"
proof -
  have "snd (for_count_rounds (high_nybble_to_low_nybble_body base) n 0 m) (base + ucast i)
      = ucast (drop_bit 4 (ucast i :: 32 word) AND 0x0f)"
    by (rule rounds_fill_256
          [where f = "\<lambda>count. ucast (drop_bit 4 (ucast count :: 32 word) AND 0x0f)", OF _ assms])
      (simp only: high_nybble_to_low_nybble_body_def)
  then show ?thesis
    by (simp only: high_low_value)
qed

lemma nybble_add_no_carryin_rounds:
  assumes "256 \<le> n"
  shows "snd (for_count_rounds (nybble_add_no_carryin_body base) n 0 m) (base + ucast i)
     = ((drop_bit 4 i AND 0x0f) + (i AND 0x0f)) AND 0x0f"
proof -
  have "snd (for_count_rounds (nybble_add_no_carryin_body base) n 0 m) (base + ucast i)
      = ucast (((drop_bit 4 (ucast i :: 32 word) AND 0x0f) + ((ucast i :: 32 word) AND 0x0f)) AND 0x0f)"
    by (rule rounds_fill_256
          [where f = "\<lambda>count. ucast (((drop_bit 4 (ucast count :: 32 word) AND 0x0f) + ((ucast count :: 32 word) AND 0x0f)) AND 0x0f)", OF _ assms])
      (simp only: nybble_add_no_carryin_body_def)
  then show ?thesis
    by (simp only: nybble_sum_value)
qed

lemma nybble_add_with_carryin_rounds:
  assumes "256 \<le> n"
  shows "snd (for_count_rounds (nybble_add_with_carryin_body base) n 0 m) (base + ucast i)
     = ((drop_bit 4 i AND 0x0f) + (i AND 0x0f) + 1) AND 0x0f"
proof -
  have "snd (for_count_rounds (nybble_add_with_carryin_body base) n 0 m) (base + ucast i)
      = ucast (((drop_bit 4 (ucast i :: 32 word) AND 0x0f) + ((ucast i :: 32 word) AND 0x0f) + 1) AND 0x0f)"
    by (rule rounds_fill_256
          [where f = "\<lambda>count. ucast (((drop_bit 4 (ucast count :: 32 word) AND 0x0f) + ((ucast count :: 32 word) AND 0x0f) + 1) AND 0x0f)", OF _ assms])
      (simp only: nybble_add_with_carryin_body_def)
  then show ?thesis
    by (simp only: nybble_sum1_value)
qed

lemma nybble_add_no_carryin_2_rounds:
  assumes "256 \<le> n"
  shows "snd (for_count_rounds (nybble_add_no_carryin_2_body base) n 0 m) (base + ucast i)
     = drop_bit 4 ((drop_bit 4 i AND 0x0f) + (i AND 0x0f)) AND 1"
proof -
  have "snd (for_count_rounds (nybble_add_no_carryin_2_body base) n 0 m) (base + ucast i)
      = ucast (drop_bit 4 (((drop_bit 4 (ucast i :: 32 word) AND 0x0f) + ((ucast i :: 32 word) AND 0x0f)) AND 0x10))"
    by (rule rounds_fill_256
          [where f = "\<lambda>count. ucast (drop_bit 4 (((drop_bit 4 (ucast count :: 32 word) AND 0x0f) + ((ucast count :: 32 word) AND 0x0f)) AND 0x10))", OF _ assms])
      (simp only: nybble_add_no_carryin_2_body_def)
  then show ?thesis
    by (simp only: nybble_carry_value)
qed

lemma nybble_add_with_carryin_2_rounds:
  assumes "256 \<le> n"
  shows "snd (for_count_rounds (nybble_add_with_carryin_2_body base) n 0 m) (base + ucast i)
     = drop_bit 4 ((drop_bit 4 i AND 0x0f) + (i AND 0x0f) + 1) AND 1"
proof -
  have "snd (for_count_rounds (nybble_add_with_carryin_2_body base) n 0 m) (base + ucast i)
      = ucast (drop_bit 4 (((drop_bit 4 (ucast i :: 32 word) AND 0x0f) + ((ucast i :: 32 word) AND 0x0f) + 1) AND 0x10))"
    by (rule rounds_fill_256
          [where f = "\<lambda>count. ucast (drop_bit 4 (((drop_bit 4 (ucast count :: 32 word) AND 0x0f) + ((ucast count :: 32 word) AND 0x0f) + 1) AND 0x10))", OF _ assms])
      (simp only: nybble_add_with_carryin_2_body_def)
  then show ?thesis
    by (simp only: nybble_carry1_value)
qed

text \<open>
  C6: after the four 256-entry nybble-extraction builders have run, entry \<open>i\<close> holds
  \<open>i & 0x0F\<close>, \<open>(i << 4) & 0xF0\<close>, \<open>i & 0xF0\<close> and \<open>(i >> 4) & 0x0F\<close>.  On the code
  there is no state after the run: each of the four builders loops on a \<^verbatim>\<open>uint8_t\<close>
  counter under \<^verbatim>\<open>count < 256\<close> and returns for no memory and no base address.  (The
  stores themselves are the claimed ones, as the \<open>_rounds\<close> lemmas above show.)
\<close>

theorem nybble_extraction_builders_never_return:
  "setup_low_nybble_to_low_nybble m base = None
   \<and> setup_low_nybble_to_high_nybble m base = None
   \<and> setup_high_nybble_to_high_nybble m base = None
   \<and> setup_high_nybble_to_low_nybble m base = None"
  by (simp add: setup_low_nybble_to_low_nybble_def setup_low_nybble_to_high_nybble_def
      setup_high_nybble_to_high_nybble_def setup_high_nybble_to_low_nybble_def
      low_nybble_to_low_nybble_loop_None low_nybble_to_high_nybble_loop_None
      high_nybble_to_high_nybble_loop_None high_nybble_to_low_nybble_loop_None)

text \<open>
  C4: the four nybble-addition builders (sum and carry-out, each without and with
  carry-in) store \<open>(hi + lo + carry_in) & 0x0F\<close> and \<open>((hi + lo + carry_in) >> 4) & 1\<close> at
  entry \<open>i\<close>.  On the code none of the four ever hands a table back: each loops on a
  \<^verbatim>\<open>uint8_t\<close> counter under \<^verbatim>\<open>count < 256\<close> and returns for no memory and no base
  address.  (The stores themselves are the claimed ones, as the \<open>_rounds\<close> lemmas above
  show.)
\<close>

theorem nybble_add_builders_never_return:
  "setup_nybble_add_no_carryin m base = None
   \<and> setup_nybble_add_with_carryin m base = None
   \<and> setup_nybble_add_no_carryin_2 m base = None
   \<and> setup_nybble_add_with_carryin_2 m base = None"
  by (simp add: setup_nybble_add_no_carryin_def setup_nybble_add_with_carryin_def
      setup_nybble_add_no_carryin_2_def setup_nybble_add_with_carryin_2_def
      nybble_add_no_carryin_loop_None nybble_add_with_carryin_loop_None
      nybble_add_no_carryin_2_loop_None nybble_add_with_carryin_2_loop_None)

text \<open>
  The claim that every builder terminates fails at the stub: \<^verbatim>\<open>build_lut8_add\<close> on
  zeroed memory and the base address \<open>0x20000000\<close> never returns.
\<close>

theorem build_lut8_add_never_returns:
  "build_lut8_add zero_mem 0x20000000 = None"
  by (simp add: build_lut8_add_def build_lut8_add_loop_None)

text \<open>
  C3 (amended): \<^verbatim>\<open>setup_low_nybble_low_nybble_to_byte\<close> and the chain builder
  \<^verbatim>\<open>build_add8_using_nybbles\<close> run to completion and return for every input;
  \<^verbatim>\<open>build_lut8_add\<close> is an unimplemented stub that never returns, for any input.
\<close>

theorem building_phase_returns:
  "(\<exists>m'. setup_low_nybble_low_nybble_to_byte m base = Some m')
   \<and> (\<exists>m'. build_add8_using_nybbles scratch m descs opa opb result = Some m')
   \<and> build_lut8_add m base = None"
  by (simp add: setup_low_nybble_low_nybble_to_byte_def build_add8_using_nybbles_def Let_def
      build_lut8_add_def build_lut8_add_loop_None)

section \<open>Reading the descriptors back\<close>

lemma bytes_of_word32:
  fixes v :: "32 word"
  shows "ucast (ucast v :: 8 word) OR push_bit 8 (ucast (ucast (drop_bit 8 v) :: 8 word))
       OR push_bit 16 (ucast (ucast (drop_bit 16 v) :: 8 word))
       OR push_bit 24 (ucast (ucast (drop_bit 24 v) :: 8 word)) = v"
proof (rule bit_word_eqI)
  fix n
  assume "n < LENGTH(32)"
  then have n: "n < 32" by simp
  consider "n < 8" | "8 \<le> n" "n < 16" | "16 \<le> n" "n < 24" | "24 \<le> n" "n < 32"
    using n by linarith
  then show "bit (ucast (ucast v :: 8 word) OR push_bit 8 (ucast (ucast (drop_bit 8 v) :: 8 word))
       OR push_bit 16 (ucast (ucast (drop_bit 16 v) :: 8 word))
       OR push_bit 24 (ucast (ucast (drop_bit 24 v) :: 8 word)) :: 32 word) n = bit v n"
    by cases (auto simp: bit_simps)
qed

lemma read32_write32_same: "read32 (write32 m a v) a = v"
  unfolding read32_def write32_def
  by (simp add: bytes_of_word32)

lemma word_offsets_differ:
  fixes a a' :: "32 word"
  assumes "4 \<le> a' - a" "4 \<le> a - a'"
  shows "a' + i = a + j \<Longrightarrow> i - j < 4 \<or> j - i < 4 \<Longrightarrow> False"
proof -
  assume e: "a' + i = a + j" and d: "i - j < 4 \<or> j - i < 4"
  from e have a': "a' = a + j - i"
    by (simp add: eq_diff_eq)
  have "a' - a = j - i"
    unfolding a' by simp
  moreover have "a - a' = i - j"
    unfolding a' by simp
  ultimately show False
    using assms d by auto
qed

lemma read32_write32_other:
  assumes "4 \<le> a' - a" "4 \<le> a - a'"
  shows "read32 (write32 m a v) a' = read32 m a'"
proof -
  note D = word_offsets_differ [OF assms]
  have "a' \<noteq> a" using D [of 0 0] by auto
  moreover have "a' \<noteq> a + 1" using D [of 0 1] by auto
  moreover have "a' \<noteq> a + 2" using D [of 0 2] by auto
  moreover have "a' \<noteq> a + 3" using D [of 0 3] by auto
  moreover have "a' + 1 \<noteq> a" using D [of 1 0] by auto
  moreover have "a' + 1 \<noteq> a + 2" using D [of 1 2] by auto
  moreover have "a' + 1 \<noteq> a + 3" using D [of 1 3] by auto
  moreover have "a' + 2 \<noteq> a" using D [of 2 0] by auto
  moreover have "a' + 2 \<noteq> a + 1" using D [of 2 1] by auto
  moreover have "a' + 2 \<noteq> a + 3" using D [of 2 3] by auto
  moreover have "a' + 3 \<noteq> a" using D [of 3 0] by auto
  moreover have "a' + 3 \<noteq> a + 1" using D [of 3 1] by auto
  moreover have "a' + 3 \<noteq> a + 2" using D [of 3 2] by auto
  ultimately show ?thesis
    unfolding read32_def write32_def by simp
qed

lemma read32_write16_other:
  assumes "2 \<le> a' - a" "4 \<le> a - a'"
  shows "read32 (write16 m a v) a' = read32 m a'"
proof -
  have D: "a' + i = a + j \<Longrightarrow> i - j < 4 \<or> j - i < 2 \<Longrightarrow> False" for i j
  proof -
    assume e: "a' + i = a + j" and d: "i - j < 4 \<or> j - i < 2"
    from e have a': "a' = a + j - i"
      by (simp add: eq_diff_eq)
    have "a' - a = j - i"
      unfolding a' by simp
    moreover have "a - a' = i - j"
      unfolding a' by simp
    ultimately show False
      using assms d by auto
  qed
  have "a' \<noteq> a" using D [of 0 0] by auto
  moreover have "a' \<noteq> a + 1" using D [of 0 1] by auto
  moreover have "a' + 1 \<noteq> a" using D [of 1 0] by auto
  moreover have "a' + 2 \<noteq> a" using D [of 2 0] by auto
  moreover have "a' + 2 \<noteq> a + 1" using D [of 2 1] by auto
  moreover have "a' + 3 \<noteq> a" using D [of 3 0] by auto
  moreover have "a' + 3 \<noteq> a + 1" using D [of 3 1] by auto
  ultimately show ?thesis
    unfolding read32_def write16_def by simp
qed

lemma write32_frame: "4 \<le> x - a \<Longrightarrow> write32 m a v x = m x"
proof -
  assume h: "4 \<le> x - a"
  have D: "x = a + j \<Longrightarrow> j < 4 \<Longrightarrow> False" for j
  proof -
    assume "x = a + j" "j < 4"
    then have "x - a = j" by simp
    with h \<open>j < 4\<close> show False by auto
  qed
  have "x \<noteq> a" using D [of 0] by auto
  moreover have "x \<noteq> a + 1" using D [of 1] by auto
  moreover have "x \<noteq> a + 2" using D [of 2] by auto
  moreover have "x \<noteq> a + 3" using D [of 3] by auto
  ultimately show ?thesis
    unfolding write32_def by simp
qed

lemma write16_frame: "2 \<le> x - a \<Longrightarrow> write16 m a v x = m x"
proof -
  assume h: "2 \<le> x - a"
  have D: "x = a + j \<Longrightarrow> j < 2 \<Longrightarrow> False" for j
  proof -
    assume "x = a + j" "j < 2"
    then have "x - a = j" by simp
    with h \<open>j < 2\<close> show False by auto
  qed
  have "x \<noteq> a" using D [of 0] by auto
  moreover have "x \<noteq> a + 1" using D [of 1] by auto
  ultimately show ?thesis
    unfolding write16_def by simp
qed

lemma outside_descs:
  fixes x d k :: "32 word"
  assumes "48 \<le> x - d" "k \<le> 44"
  shows "4 \<le> x - (d + k)" "2 \<le> x - (d + k)" "4 \<le> x - (k + d)" "2 \<le> x - (k + d)"
proof -
  have e: "x - (d + k) = (x - d) - k" by simp
  have "(44 :: 32 word) \<le> 48" by simp
  with assms have le: "k \<le> x - d"
    by (meson order_trans)
  have "unat ((x - d) - k) = unat (x - d) - unat k"
    using le by (simp add: unat_sub)
  moreover from assms have "48 \<le> unat (x - d)" "unat k \<le> 44"
    by (simp_all add: word_le_nat_alt)
  ultimately have "4 \<le> unat (x - (d + k))"
    unfolding e by simp
  then show a: "4 \<le> x - (d + k)" by (simp add: word_le_nat_alt)
  then show b: "2 \<le> x - (d + k)" by (simp add: word_le_nat_alt)
  from a show "4 \<le> x - (k + d)" by (simp add: add.commute)
  from b show "2 \<le> x - (k + d)" by (simp add: add.commute)
qed

lemma outside_descs0:
  fixes x d :: "32 word"
  assumes "48 \<le> x - d"
  shows "4 \<le> x - d" "2 \<le> x - d"
  using outside_descs(1,2) [OF assms, of 0] by simp_all

lemmas layout_defs =
  desc_addr_def sizeof_DmacDescriptor_def sizeof_SRCADDR_def
  BTCTRL_of_def BTCNT_of_def SRCADDR_of_def DSTADDR_of_def DESCADDR_of_def

lemma desc_header_frame:
  assumes "48 \<le> x - descs"
  shows "desc_header m descs n x = m x"
    "desc_header m (descs + 16) n x = m x"
    "desc_header m (descs + 32) n x = m x"
  by (simp_all add: desc_header_def layout_defs Let_def write16_frame
       outside_descs [OF assms] outside_descs0 [OF assms])

lemma build_descs0_frame:
  assumes "48 \<le> x - descs"
  shows "build_descs0 m descs opa x = m x"
  by (simp add: build_descs0_def Let_def write32_frame desc_header_frame [OF assms]
      layout_defs outside_descs [OF assms] outside_descs0 [OF assms])

lemma build_descs1_frame:
  assumes "48 \<le> x - descs"
  shows "build_descs1 m descs opb x = m x"
  by (simp add: build_descs1_def Let_def write32_frame desc_header_frame [OF assms]
      layout_defs outside_descs [OF assms] outside_descs0 [OF assms])

lemma build_descs2_frame:
  assumes "48 \<le> x - descs"
  shows "build_descs2 scratch m descs x = m x"
  by (simp add: build_descs2_def Let_def write32_frame desc_header_frame [OF assms]
      layout_defs outside_descs [OF assms] outside_descs0 [OF assms])

lemma build_add8_frame:
  assumes "48 \<le> x - descs"
  shows "byte_after (build_add8_using_nybbles scratch m descs opa opb result) x = Some (m x)"
  by (simp add: build_add8_using_nybbles_def byte_after_def Let_def
      build_descs0_frame [OF assms] build_descs1_frame [OF assms] build_descs2_frame [OF assms])

lemmas chain_defs =
  build_add8_using_nybbles_def build_descs0_def build_descs1_def build_descs2_def
  desc_header_def desc_addr_def sizeof_DmacDescriptor_def sizeof_SRCADDR_def
  BTCTRL_of_def BTCNT_of_def SRCADDR_of_def DSTADDR_of_def DESCADDR_of_def
  field32_after_def Let_def

lemmas chain_rw = read32_write32_same read32_write32_other read32_write16_other

lemma add8_links:
  "field32_after (build_add8_using_nybbles scratch m descs opa opb result)
      (DESCADDR_of (desc_addr descs 0)) = Some (desc_addr descs 1)"
  "field32_after (build_add8_using_nybbles scratch m descs opa opb result)
      (DESCADDR_of (desc_addr descs 1)) = Some (desc_addr descs 2)"
  "field32_after (build_add8_using_nybbles scratch m descs opa opb result)
      (DESCADDR_of (desc_addr descs 2)) = Some (desc_addr descs 2)"
  by (simp_all add: chain_defs chain_rw)

lemma add8_dsts:
  "field32_after (build_add8_using_nybbles scratch m descs opa opb result)
      (DSTADDR_of (desc_addr descs 0)) = Some (SRCADDR_of (desc_addr descs 2))"
  "field32_after (build_add8_using_nybbles scratch m descs opa opb result)
      (DSTADDR_of (desc_addr descs 1)) = Some (SRCADDR_of (desc_addr descs 2) + 4)"
  "field32_after (build_add8_using_nybbles scratch m descs opa opb result)
      (DSTADDR_of (desc_addr descs 2)) = Some (scratch + 2)"
  by (simp_all add: chain_defs chain_rw)

lemma add8_srcs:
  "field32_after (build_add8_using_nybbles scratch m descs opa opb result)
      (SRCADDR_of (desc_addr descs 0)) = Some (ucast (desc_header m (desc_addr descs 0) 1 opa))"
  "field32_after (build_add8_using_nybbles scratch m descs opa opb result)
      (SRCADDR_of (desc_addr descs 1))
     = Some (ucast (desc_header (build_descs0 m descs opa) (desc_addr descs 1) 1 opb))"
  by (simp_all add: chain_defs chain_rw)

lemma add8_ignores_result:
  "build_add8_using_nybbles scratch m descs opa opb result
     = build_add8_using_nybbles scratch m descs opa opb result'"
  by (simp add: build_add8_using_nybbles_def)

section \<open>The chain that \<^verbatim>\<open>build_add8_using_nybbles\<close> emits\<close>

text \<open>
  C1: the emitted chain, run stage by stage, is to write \<open>(opa + opb) mod 256\<close> into the
  result byte and expose the carry-out, for instance \<open>0x40\<close> and carry \<open>0\<close> for the
  operands \<open>0x3F\<close> and \<open>0x01\<close>.  On the code, at exactly these operands: the function
  fills in three descriptors and stops.  Their sources are the numbers \<open>0x3F\<close> and
  \<open>0x01\<close> taken as addresses; their destinations are two fields of the third descriptor
  and a scratch byte, none of them the result byte at \<open>0x20001002\<close>; the third
  descriptor is followed by itself; and the result byte still holds its old \<open>0\<close> when
  the builder returns.  No transfer of this chain can put \<open>0x40\<close> there.
\<close>

theorem add8_chain_for_3F_plus_01:
  "field32_after add8_example (SRCADDR_of (desc_addr 0x20000000 0)) = Some 0x3F
   \<and> field32_after add8_example (DSTADDR_of (desc_addr 0x20000000 0)) = Some 0x20000024
   \<and> field32_after add8_example (SRCADDR_of (desc_addr 0x20000000 1)) = Some 0x01
   \<and> field32_after add8_example (DSTADDR_of (desc_addr 0x20000000 1)) = Some 0x20000028
   \<and> field32_after add8_example (DSTADDR_of (desc_addr 0x20000000 2)) = Some 0x20002002
   \<and> field32_after add8_example (DESCADDR_of (desc_addr 0x20000000 2)) = Some 0x20000020
   \<and> byte_after add8_example 0x20001002 = Some 0"
proof -
  have "field32_after add8_example (SRCADDR_of (desc_addr 0x20000000 0)) = Some 0x3F"
    unfolding add8_example_def
    by (simp add: add8_srcs) (simp add: layout_defs desc_header_frame add8_example_mem_def)
  moreover
  have "field32_after add8_example (SRCADDR_of (desc_addr 0x20000000 1)) = Some 0x01"
    unfolding add8_example_def
    by (simp add: add8_srcs)
      (simp add: layout_defs desc_header_frame build_descs0_frame add8_example_mem_def)
  moreover
  have "field32_after add8_example (DSTADDR_of (desc_addr 0x20000000 0)) = Some 0x20000024"
    unfolding add8_example_def by (simp add: add8_dsts) (simp add: layout_defs)
  moreover
  have "field32_after add8_example (DSTADDR_of (desc_addr 0x20000000 1)) = Some 0x20000028"
    unfolding add8_example_def by (simp add: add8_dsts) (simp add: layout_defs)
  moreover
  have "field32_after add8_example (DSTADDR_of (desc_addr 0x20000000 2)) = Some 0x20002002"
    unfolding add8_example_def by (simp add: add8_dsts)
  moreover
  have "field32_after add8_example (DESCADDR_of (desc_addr 0x20000000 2)) = Some 0x20000020"
    unfolding add8_example_def by (simp add: add8_links) (simp add: layout_defs)
  moreover
  have "byte_after add8_example 0x20001002 = Some 0"
    unfolding add8_example_def
    by (simp add: build_add8_frame add8_example_mem_def zero_mem_def)
  ultimately show ?thesis
    by simp
qed

text \<open>
  C2: the emitted chain is to be linear and acyclic, each descriptor linked to the next
  and the last one to null.  On the code, for every call: \<^verbatim>\<open>descs[0]\<close> links to
  \<^verbatim>\<open>&descs[1]\<close> and \<^verbatim>\<open>descs[1]\<close> to \<^verbatim>\<open>&descs[2]\<close>, but the last descriptor
  \<^verbatim>\<open>descs[2]\<close> links to \<^verbatim>\<open>&descs[2]\<close>, itself.
\<close>

theorem add8_chain_links:
  "field32_after (build_add8_using_nybbles scratch m descs opa opb result)
      (DESCADDR_of (desc_addr descs 0)) = Some (desc_addr descs 1)
   \<and> field32_after (build_add8_using_nybbles scratch m descs opa opb result)
      (DESCADDR_of (desc_addr descs 1)) = Some (desc_addr descs 2)
   \<and> field32_after (build_add8_using_nybbles scratch m descs opa opb result)
      (DESCADDR_of (desc_addr descs 2)) = Some (desc_addr descs 2)"
  by (simp only: add8_links simp_thms)

text \<open>
  Two calls with different descriptor arrays, operands and result bytes: the third
  descriptor of both chains has the same destination, byte 2 of the one static scratch
  buffer.
\<close>

theorem add8_chains_share_scratch:
  "field32_after add8_example (DSTADDR_of (desc_addr 0x20000000 2)) = Some 0x20002002
   \<and> field32_after add8_example2 (DSTADDR_of (desc_addr 0x20000100 2)) = Some 0x20002002"
  unfolding add8_example_def add8_example2_def by (simp add: add8_dsts)

text \<open>
  C7 (amended): \<^verbatim>\<open>build_add8_using_nybbles\<close> takes no scratch region from its caller.
  Every chain it builds uses the one function-static scratch buffer: whatever the
  memory, the descriptor array, the operands and the result location of two calls, the
  third descriptor of both chains has the destination \<^verbatim>\<open>&scratch[2]\<close>, so chains built
  by different calls share their scratch byte.
\<close>

theorem add8_scratch_is_static:
  "field32_after (build_add8_using_nybbles scratch m descs opa opb result)
      (DSTADDR_of (desc_addr descs 2)) = Some (scratch + 2)
   \<and> field32_after (build_add8_using_nybbles scratch m' descs' opa' opb' result')
      (DSTADDR_of (desc_addr descs' 2)) = Some (scratch + 2)"
  by (simp only: add8_dsts simp_thms)

text \<open>
  C9: the first descriptor's destination is the address of the third descriptor's
  source-address field, and the second descriptor's destination is to be that address
  plus one, the adjacent byte.  On the code, for every call: the first part holds; the
  second destination is \<^verbatim>\<open>&descs[2].SRCADDR + 1\<close> in pointer arithmetic, one whole
  field further, which is 4 bytes on and is the first byte of \<^verbatim>\<open>descs[2].DSTADDR\<close>,
  not the byte next to the first nybble.
\<close>

theorem add8_nybble_destinations:
  "field32_after (build_add8_using_nybbles scratch m descs opa opb result)
      (DSTADDR_of (desc_addr descs 0)) = Some (SRCADDR_of (desc_addr descs 2))
   \<and> field32_after (build_add8_using_nybbles scratch m descs opa opb result)
      (DSTADDR_of (desc_addr descs 1)) = Some (SRCADDR_of (desc_addr descs 2) + 4)
   \<and> SRCADDR_of (desc_addr descs 2) + 4 = DSTADDR_of (desc_addr descs 2)
   \<and> SRCADDR_of (desc_addr descs 2) + 4 \<noteq> SRCADDR_of (desc_addr descs 2) + 1"
  by (simp add: add8_dsts) (simp add: layout_defs)

text \<open>
  C10: for every call, the source-address fields of the first and second descriptors
  hold the byte values stored at the operand locations when the assignment runs
  (\<^verbatim>\<open>*opa\<close> and \<^verbatim>\<open>*opb\<close>, zero-extended), not the addresses \<open>opa\<close> and \<open>opb\<close>.  The
  byte is read after the two header stores of the same descriptor (and, for \<open>opb\<close>,
  after the whole block of \<^verbatim>\<open>descs[0]\<close>); when both operands lie outside the 48 bytes
  of the three descriptors these are the bytes of the memory the call started from.
\<close>

theorem add8_sources_are_operand_values:
  "field32_after (build_add8_using_nybbles scratch m descs opa opb result)
      (SRCADDR_of (desc_addr descs 0))
     = Some (ucast (desc_header m (desc_addr descs 0) 1 opa))
   \<and> field32_after (build_add8_using_nybbles scratch m descs opa opb result)
      (SRCADDR_of (desc_addr descs 1))
     = Some (ucast (desc_header (build_descs0 m descs opa) (desc_addr descs 1) 1 opb))
   \<and> (48 \<le> opa - descs \<and> 48 \<le> opb - descs \<longrightarrow>
        field32_after (build_add8_using_nybbles scratch m descs opa opb result)
           (SRCADDR_of (desc_addr descs 0)) = Some (ucast (m opa))
        \<and> field32_after (build_add8_using_nybbles scratch m descs opa opb result)
           (SRCADDR_of (desc_addr descs 1)) = Some (ucast (m opb)))"
proof -
  have "desc_header m (desc_addr descs 0) 1 opa = m opa" if "48 \<le> opa - descs"
    using that by (simp add: layout_defs desc_header_frame)
  moreover
  have "desc_header (build_descs0 m descs opa) (desc_addr descs 1) 1 opb = m opb"
    if "48 \<le> opb - descs"
    using that by (simp add: layout_defs desc_header_frame build_descs0_frame)
  ultimately show ?thesis
    by (simp only: add8_srcs simp_thms) simp
qed

theorem add8_sources_are_operand_values_witness:
  "(48 :: 32 word) \<le> 0x20001000 - 0x20000000 \<and> (48 :: 32 word) \<le> 0x20001001 - 0x20000000
   \<and> field32_after add8_example (SRCADDR_of (desc_addr 0x20000000 0)) = Some 0x3F
   \<and> field32_after add8_example (SRCADDR_of (desc_addr 0x20000000 1)) = Some 0x01"
proof -
  have h: "(48 :: 32 word) \<le> 0x20001000 - 0x20000000 \<and> (48 :: 32 word) \<le> 0x20001001 - 0x20000000"
    by simp
  have v: "ucast (add8_example_mem 0x20001000) = (0x3F :: 32 word)"
    "ucast (add8_example_mem 0x20001001) = (0x01 :: 32 word)"
    by (simp_all add: add8_example_mem_def)
  from add8_sources_are_operand_values
    [of "0x20002000" add8_example_mem "0x20000000" "0x20001000" "0x20001001" "0x20001002",
      THEN conjunct2, THEN conjunct2, THEN mp, OF h]
  show ?thesis
    unfolding add8_example_def v using h by blast
qed

end
